theory Spec2Isabelle
  imports Main
begin

section \<open>Python values used by receiver.py\<close>

text \<open>
  A Python \<open>str\<close> is a sequence of Unicode code points, and \<open>len\<close> and slicing count
  code points; \<open>bytes\<close> is a sequence of integers below 256. Both are lists of naturals
  here. The integers of the program (byte sums, counters, the two protocol bits) start
  at 0 and are only ever incremented or reduced modulo 2, so they are naturals too.
\<close>

type_synonym codepoint = nat
type_synonym pystr = "codepoint list"
type_synonym bytes = "nat list"

datatype py_exception =
    UnicodeEncodeError
  | UnicodeDecodeError
  | ValueError
  | IndexError
  | ConnectionAbortedError
  | ConnectionResetError
  | BrokenPipeError
  | TimeoutError
  | OSError

text \<open>String literals of the source are written as \<open>ascii ''...''\<close>.\<close>

definition ascii :: "string \<Rightarrow> pystr" where
  "ascii cs = map of_char cs"

text \<open>
  \<open>str.encode("utf-8")\<close>, one code point at a time. A surrogate (U+D800 to U+DFFF)
  raises UnicodeEncodeError under the default strict error handler. A Python \<open>str\<close>
  holds no value above U+10FFFF; the encoder refuses such a number as well, so that no
  result depends on it.
\<close>

definition utf8_char :: "codepoint \<Rightarrow> py_exception + bytes" where
  "utf8_char c =
     (if c < 0x80 then Inr [c]
      else if c < 0x800 then Inr [0xC0 + c div 0x40, 0x80 + c mod 0x40]
      else if 0xD800 \<le> c \<and> c \<le> 0xDFFF then Inl UnicodeEncodeError
      else if c < 0x10000 then
        Inr [0xE0 + c div 0x1000, 0x80 + c div 0x40 mod 0x40, 0x80 + c mod 0x40]
      else if c < 0x110000 then
        Inr [0xF0 + c div 0x40000, 0x80 + c div 0x1000 mod 0x40,
             0x80 + c div 0x40 mod 0x40, 0x80 + c mod 0x40]
      else Inl UnicodeEncodeError)"

fun encode_utf8 :: "pystr \<Rightarrow> py_exception + bytes" where
  "encode_utf8 [] = Inr []"
| "encode_utf8 (c # cs) =
     (case utf8_char c of
        Inl e \<Rightarrow> Inl e
      | Inr bs \<Rightarrow> (case encode_utf8 cs of Inl e \<Rightarrow> Inl e | Inr rest \<Rightarrow> Inr (bs @ rest)))"

text \<open>\<open>str(n)\<close> and \<open>format(n, '05d')\<close> for a non-negative integer.\<close>

fun str_nat :: "nat \<Rightarrow> pystr" where
  "str_nat n = (if n < 10 then [48 + n] else str_nat (n div 10) @ [48 + n mod 10])"

declare str_nat.simps [simp del]

definition format_05d :: "nat \<Rightarrow> pystr" where
  "format_05d n = replicate (5 - length (str_nat n)) 48 @ str_nat n"

section \<open>The checksum codec\<close>

text \<open>
  The loop \<open>for i in range(0, len(msg), 1): s += msg[i]\<close> of \<open>checksum\<close>, with the
  index and the accumulator as arguments.
\<close>

function sum_bytes :: "bytes \<Rightarrow> nat \<Rightarrow> nat \<Rightarrow> nat" where
  "sum_bytes msg i s = (if i < length msg then sum_bytes msg (i + 1) (s + msg ! i) else s)"
  by pat_completeness auto
termination
  by (relation "measure (\<lambda>(msg, i, s). length msg - i)") auto

declare sum_bytes.simps [simp del]

definition checksum :: "pystr \<Rightarrow> py_exception + pystr" where
  "checksum msg =
     (case encode_utf8 msg of
        Inl e \<Rightarrow> Inl e
      | Inr encoded \<Rightarrow> Inr (format_05d (sum_bytes encoded 0 0)))"

text \<open>
  \<open>msg[:-5]\<close> and \<open>msg[-5:]\<close>: a slice never raises, and on a string shorter than five
  characters the first is empty and the second the whole string, as the truncating
  subtraction gives.
\<close>

definition checksum_verifier :: "pystr \<Rightarrow> py_exception + bool" where
  "checksum_verifier msg =
     (let expected_packet_length = 30 in
      if length msg < expected_packet_length then Inr False
      else
        let content = take (length msg - 5) msg;
            expected_checksum = drop (length msg - 5) msg
        in case checksum content of
             Inl e \<Rightarrow> Inl e
           | Inr calc_checksum \<Rightarrow>
               if calc_checksum = expected_checksum then Inr True else Inr False)"

section \<open>The receiver\<close>

text \<open>
  \<open>recv_message[0]\<close> and \<open>int\<close> of that one-character string. \<open>int\<close> accepts a
  character with the Unicode property Decimal and nothing else: not a space, a sign or a
  letter. For ASCII these are the digits 0 to 9; the values of the other decimal digits
  come from the interpreter's Unicode database, which is the parameter \<open>decimal\<close>.
\<close>

definition index0 :: "pystr \<Rightarrow> py_exception + codepoint" where
  "index0 s = (case s of [] \<Rightarrow> Inl IndexError | c # _ \<Rightarrow> Inr c)"

definition int_char :: "(codepoint \<Rightarrow> nat option) \<Rightarrow> codepoint \<Rightarrow> py_exception + nat" where
  "int_char decimal c =
     (if 48 \<le> c \<and> c \<le> 57 then Inr (c - 48)
      else if c < 128 then Inl ValueError
      else case decimal c of None \<Rightarrow> Inl ValueError | Some d \<Rightarrow> Inr d)"

text \<open>Line 177: \<open>seq_num = int(recv_message[0])\<close>.\<close>

definition seq_num :: "(codepoint \<Rightarrow> nat option) \<Rightarrow> pystr \<Rightarrow> py_exception + nat" where
  "seq_num decimal recv_message =
     (case index0 recv_message of Inl e \<Rightarrow> Inl e | Inr c \<Rightarrow> int_char decimal c)"

text \<open>
  The local variables of \<open>start_receiver\<close> that the loop updates, and \<open>wire\<close>: what
  \<open>clientSocket.sendall\<close> has transmitted so far, oldest first.
\<close>

record receiver =
  data :: pystr
  total_packet_sent :: nat
  total_packet_recv :: nat
  total_corrupted_pkt_recv :: nat
  ACK :: nat
  SEQ :: nat
  wire :: "bytes list"

definition initial :: receiver where
  "initial = \<lparr>data = [], total_packet_sent = 0, total_packet_recv = 0,
              total_corrupted_pkt_recv = 0, ACK = 0, SEQ = 0, wire = []\<rparr>"

definition spaces :: pystr where
  "spaces = ascii ''                    ''"

definition make_packet :: "nat \<Rightarrow> py_exception + pystr" where
  "make_packet ack =
     (let packet = ascii ''  '' @ str_nat ack @ ascii '' '' @ spaces @ ascii '' ''
      in case checksum packet of
           Inl e \<Rightarrow> Inl e
         | Inr packet_checksum \<Rightarrow> Inr (packet @ packet_checksum))"

text \<open>
  What the transport does during one pass of the loop: the outcome of
  \<open>clientSocket.recv(30).decode("utf-8")\<close>, a string (empty when the peer has closed) or
  an exception, and the exception that \<open>sendall\<close> raises if the pass calls it, if any.
  A read of at most 30 bytes decodes to at most 30 code points; nothing below relies on
  that bound.
\<close>

datatype recv_outcome = Returns pystr | Raises py_exception

record transport =
  recv_30 :: recv_outcome
  sendall_raises :: "py_exception option"

definition send_packet :: "transport \<Rightarrow> receiver \<Rightarrow> pystr \<Rightarrow> py_exception + receiver" where
  "send_packet t s packet =
     (case encode_utf8 packet of
        Inl e \<Rightarrow> Inl e
      | Inr encoded \<Rightarrow>
          (case sendall_raises t of
             Some e \<Rightarrow> Inl e
           | None \<Rightarrow> Inr (s\<lparr>wire := wire s @ [encoded]\<rparr>)))"

definition is_corrupt :: "pystr \<Rightarrow> py_exception + bool" where
  "is_corrupt recv_message =
     (case checksum_verifier recv_message of Inl e \<Rightarrow> Inl e | Inr ok \<Rightarrow> Inr (\<not> ok))"

text \<open>
  One pass through the body of the \<open>try\<close> (lines 150 to 204): it ends in the next pass
  (by \<open>continue\<close> or by reaching the end), in \<open>break\<close>, or in an exception, each with the
  variables as they are at that point.
\<close>

datatype control = Next receiver | Break receiver | Throw py_exception receiver

definition try_body :: "(codepoint \<Rightarrow> nat option) \<Rightarrow> receiver \<Rightarrow> transport \<Rightarrow> control" where
  "try_body decimal s t =
     (case recv_30 t of
        Raises e \<Rightarrow> Throw e s
      | Returns recv_message \<Rightarrow>
          if recv_message = [] then Break s
          else
            let s1 = s\<lparr>total_packet_recv := total_packet_recv s + 1\<rparr> in
            case is_corrupt recv_message of
              Inl e \<Rightarrow> Throw e s1
            | Inr True \<Rightarrow>
                (let s2 = s1\<lparr>total_corrupted_pkt_recv := total_corrupted_pkt_recv s1 + 1\<rparr> in
                 case make_packet ((ACK s2 + 1) mod 2) of
                   Inl e \<Rightarrow> Throw e s2
                 | Inr packet \<Rightarrow>
                     (case send_packet t s2 packet of
                        Inl e \<Rightarrow> Throw e s2
                      | Inr s3 \<Rightarrow> Next (s3\<lparr>total_packet_sent := total_packet_sent s3 + 1\<rparr>)))
            | Inr False \<Rightarrow>
                (case seq_num decimal recv_message of
                   Inl e \<Rightarrow> Throw e s1
                 | Inr n \<Rightarrow>
                     if n \<noteq> SEQ s1 then
                       (case make_packet ((ACK s1 + 1) mod 2) of
                          Inl e \<Rightarrow> Throw e s1
                        | Inr packet \<Rightarrow>
                            (case send_packet t s1 packet of
                               Inl e \<Rightarrow> Throw e s1
                             | Inr s3 \<Rightarrow>
                                 Next (s3\<lparr>total_packet_sent := total_packet_sent s3 + 1\<rparr>)))
                     else
                       (let s2 = s1\<lparr>data := data s1 @ take (24 - 4) (drop 4 recv_message)\<rparr> in
                        case make_packet (ACK s2) of
                          Inl e \<Rightarrow> Throw e s2
                        | Inr packet \<Rightarrow>
                            (case send_packet t s2 packet of
                               Inl e \<Rightarrow> Throw e s2
                             | Inr s3 \<Rightarrow>
                                 Next (s3\<lparr>total_packet_sent := total_packet_sent s3 + 1,
                                          ACK := (ACK s3 + 1) mod 2,
                                          SEQ := (SEQ s3 + 1) mod 2\<rparr>)))))"

text \<open>
  The \<open>while True\<close> loop over a script of transport outcomes, one per pass. The only
  handler is \<open>except ConnectionAbortedError: break\<close>; any other exception leaves the loop
  and \<open>start_receiver\<close> uncaught. When the script is used up the receiver is blocked in
  \<open>recv\<close>, which has no timeout.
\<close>

datatype loop_end = Exited receiver | Uncaught py_exception receiver | Blocked receiver

fun receive_loop :: "(codepoint \<Rightarrow> nat option) \<Rightarrow> receiver \<Rightarrow> transport list \<Rightarrow> loop_end" where
  "receive_loop decimal s [] = Blocked s"
| "receive_loop decimal s (t # ts) =
     (case try_body decimal s t of
        Next s' \<Rightarrow> receive_loop decimal s' ts
      | Break s' \<Rightarrow> Exited s'
      | Throw e s' \<Rightarrow> if e = ConnectionAbortedError then Exited s' else Uncaught e s')"

text \<open>
  STEP 2 of \<open>start_receiver\<close> on an established channel: the loop from the initial
  variables, then (lines 216 to 231) the socket is closed, trailing spaces are stripped
  from \<open>data\<close>, and the file checksum and the three counters are printed.
\<close>

definition rstrip_space :: "pystr \<Rightarrow> pystr" where
  "rstrip_space s = rev (dropWhile (\<lambda>c. c = 32) (rev s))"

record report =
  received :: pystr
  file_checksum :: pystr
  packets_sent :: nat
  packets_recv :: nat
  corrupted_recv :: nat

datatype session_end = Reported report | Traceback py_exception | Waiting

definition start_receiver :: "(codepoint \<Rightarrow> nat option) \<Rightarrow> transport list \<Rightarrow> session_end" where
  "start_receiver decimal script =
     (case receive_loop decimal initial script of
        Blocked s \<Rightarrow> Waiting
      | Uncaught e s \<Rightarrow> Traceback e
      | Exited s \<Rightarrow>
          (let d = rstrip_space (data s) in
           case checksum d of
             Inl e \<Rightarrow> Traceback e
           | Inr c \<Rightarrow>
               Reported \<lparr>received = d, file_checksum = c,
                         packets_sent = total_packet_sent s,
                         packets_recv = total_packet_recv s,
                         corrupted_recv = total_corrupted_pkt_recv s\<rparr>))"

section \<open>Notions used to state the properties\<close>

text \<open>
  A fragment of the Unicode database for the concrete examples: the Arabic-Indic digits
  U+0660 to U+0669.
\<close>

definition arabic_indic :: "codepoint \<Rightarrow> nat option" where
  "arabic_indic c = (if 0x660 \<le> c \<and> c \<le> 0x669 then Some (c - 0x660) else None)"

text \<open>A pass in which \<open>recv\<close> returns \<open>m\<close> and \<open>sendall\<close>, if called, succeeds.\<close>

definition delivers :: "pystr \<Rightarrow> transport" where
  "delivers m = \<lparr>recv_30 = Returns m, sendall_raises = None\<rparr>"

text \<open>
  A pass accepts its packet when the read is not empty, the packet is not corrupt, its
  sequence number is the expected one (the conditions under which control reaches line
  190), and the pass runs to its end at line 204.
\<close>

definition accepted :: "(codepoint \<Rightarrow> nat option) \<Rightarrow> receiver \<Rightarrow> transport \<Rightarrow> bool" where
  "accepted decimal s t =
     (case recv_30 t of
        Raises e \<Rightarrow> False
      | Returns m \<Rightarrow>
          m \<noteq> [] \<and> is_corrupt m = Inr False \<and> seq_num decimal m = Inr (SEQ s) \<and>
          (case try_body decimal s t of Next s' \<Rightarrow> True | Break s' \<Rightarrow> False | Throw e s' \<Rightarrow> False))"

text \<open>The number of packets accepted while the loop runs over a script.\<close>

fun accepted_count :: "(codepoint \<Rightarrow> nat option) \<Rightarrow> receiver \<Rightarrow> transport list \<Rightarrow> nat" where
  "accepted_count decimal s [] = 0"
| "accepted_count decimal s (t # ts) =
     (case try_body decimal s t of
        Next s' \<Rightarrow> (if accepted decimal s t then 1 else 0) + accepted_count decimal s' ts
      | Break s' \<Rightarrow> 0
      | Throw e s' \<Rightarrow> 0)"

text \<open>The variables when the loop is left, or where it is blocked.\<close>

fun variables :: "loop_end \<Rightarrow> receiver" where
  "variables (Exited s) = s"
| "variables (Uncaught e s) = s"
| "variables (Blocked s) = s"

section \<open>Facts about the checksum codec\<close>

lemma sum_bytes_drop: "sum_bytes msg i s = s + sum_list (drop i msg)"
proof (induction msg i s rule: sum_bytes.induct)
  case (1 msg i s)
  show ?case
  proof (cases "i < length msg")
    case True
    then have "drop i msg = msg ! i # drop (Suc i) msg"
      by (simp add: Cons_nth_drop_Suc)
    with True "1.IH" show ?thesis
      by (subst sum_bytes.simps) simp
  next
    case False
    then show ?thesis
      by (subst sum_bytes.simps) simp
  qed
qed

lemma sum_bytes_total: "sum_bytes msg 0 0 = sum_list msg"
  by (simp add: sum_bytes_drop)

lemma str_nat_small: "n < 10 \<Longrightarrow> str_nat n = [48 + n]"
  by (subst str_nat.simps) simp

lemma str_nat_step: "10 \<le> n \<Longrightarrow> str_nat n = str_nat (n div 10) @ [48 + n mod 10]"
  by (subst str_nat.simps) simp

lemma str_nat_digits: "c \<in> set (str_nat n) \<Longrightarrow> 48 \<le> c \<and> c \<le> 57"
proof (induction n arbitrary: c rule: str_nat.induct)
  case (1 n)
  show ?case
  proof (cases "n < 10")
    case True
    with "1.prems" show ?thesis by (simp add: str_nat_small)
  next
    case False
    then have "str_nat n = str_nat (n div 10) @ [48 + n mod 10]"
      by (simp add: str_nat_step)
    with "1.prems" have "c \<in> set (str_nat (n div 10)) \<or> c = 48 + n mod 10"
      by auto
    then show ?thesis
    proof
      assume "c \<in> set (str_nat (n div 10))"
      with False "1.IH" show ?thesis by simp
    next
      assume "c = 48 + n mod 10"
      moreover have "n mod 10 < 10" by simp
      ultimately show ?thesis by linarith
    qed
  qed
qed

lemma str_nat_length: "10 ^ k \<le> n \<Longrightarrow> k < length (str_nat n)"
proof (induction k arbitrary: n)
  case 0
  show ?case by (subst str_nat.simps) simp
next
  case (Suc k)
  then have "10 \<le> n"
    by (metis One_nat_def le_trans one_le_numeral one_le_power power_Suc mult.right_neutral mult_le_mono2)
  moreover from Suc.prems have "10 ^ k \<le> n div 10"
    by (simp add: less_eq_div_iff_mult_less_eq mult.commute)
  ultimately show ?case
    using Suc.IH [of "n div 10"] by (simp add: str_nat_step)
qed

lemma replicate_pad:
  "replicate 1 x = [x]" "replicate 2 x = [x, x]" "replicate 3 x = [x, x, x]"
  "replicate 4 x = [x, x, x, x]"
  by (simp_all add: numeral_eq_Suc)

lemma str_nat_2: "10 \<le> n \<Longrightarrow> n < 100 \<Longrightarrow> str_nat n = [48 + n div 10, 48 + n mod 10]"
  using str_nat_small [of "n div 10"] by (simp add: str_nat_step)

lemma str_nat_3:
  "100 \<le> n \<Longrightarrow> n < 1000 \<Longrightarrow> str_nat n = [48 + n div 100, 48 + n div 10 mod 10, 48 + n mod 10]"
  using str_nat_2 [of "n div 10"] by (simp add: str_nat_step div_mult2_eq [symmetric])

lemma str_nat_4:
  "1000 \<le> n \<Longrightarrow> n < 10000 \<Longrightarrow>
   str_nat n = [48 + n div 1000, 48 + n div 100 mod 10, 48 + n div 10 mod 10, 48 + n mod 10]"
  using str_nat_3 [of "n div 10"] by (simp add: str_nat_step div_mult2_eq [symmetric])

lemma str_nat_5:
  "10000 \<le> n \<Longrightarrow> n < 100000 \<Longrightarrow>
   str_nat n = [48 + n div 10000, 48 + n div 1000 mod 10, 48 + n div 100 mod 10,
                48 + n div 10 mod 10, 48 + n mod 10]"
  using str_nat_4 [of "n div 10"] by (simp add: str_nat_step div_mult2_eq [symmetric])

lemma format_05d_small:
  assumes "n < 100000"
  shows "format_05d n =
           [48 + n div 10000 mod 10, 48 + n div 1000 mod 10, 48 + n div 100 mod 10,
            48 + n div 10 mod 10, 48 + n mod 10]"
proof -
  consider "n < 10" | "10 \<le> n" "n < 100" | "100 \<le> n" "n < 1000"
    | "1000 \<le> n" "n < 10000" | "10000 \<le> n"
    by linarith
  then show ?thesis
  proof cases
    case 1
    then show ?thesis by (simp add: format_05d_def str_nat_small replicate_pad)
  next
    case 2
    then show ?thesis by (simp add: format_05d_def str_nat_2 replicate_pad)
  next
    case 3
    then show ?thesis by (simp add: format_05d_def str_nat_3 replicate_pad)
  next
    case 4
    then show ?thesis by (simp add: format_05d_def str_nat_4 replicate_pad)
  next
    case 5
    with assms show ?thesis by (simp add: format_05d_def str_nat_5)
  qed
qed

lemma format_05d_big: "100000 \<le> n \<Longrightarrow> format_05d n = str_nat n \<and> 6 \<le> length (str_nat n)"
  using str_nat_length [of 5 n] by (simp add: format_05d_def)

lemma utf8_char_ascii: "c < 128 \<Longrightarrow> utf8_char c = Inr [c]"
  by (simp add: utf8_char_def)

lemma encode_utf8_ascii: "\<forall>c\<in>set s. c < 128 \<Longrightarrow> encode_utf8 s = Inr s"
  by (induction s) (simp_all add: utf8_char_ascii)

lemma encode_utf8_append:
  "encode_utf8 (a @ b) =
     (case encode_utf8 a of
        Inl e \<Rightarrow> Inl e
      | Inr x \<Rightarrow> (case encode_utf8 b of Inl e \<Rightarrow> Inl e | Inr y \<Rightarrow> Inr (x @ y)))"
  by (induction a) (simp_all split: sum.splits)

lemma format_05d_digits: "c \<in> set (format_05d n) \<Longrightarrow> 48 \<le> c \<and> c \<le> 57"
  using str_nat_digits [of c n] by (auto simp: format_05d_def)

lemma checksum_encoded:
  "encode_utf8 msg = Inr encoded \<Longrightarrow> checksum msg = Inr (format_05d (sum_list encoded))"
  by (simp add: checksum_def sum_bytes_total)

lemma checksum_raises: "encode_utf8 msg = Inl e \<Longrightarrow> checksum msg = Inl e"
  by (simp add: checksum_def)

section \<open>Facts about one pass of the loop\<close>

lemma make_packet_0: "make_packet 0 = Inr (ascii ''  0                      00816'')"
  by code_simp

lemma make_packet_1: "make_packet 1 = Inr (ascii ''  1                      00817'')"
  by code_simp

lemma str_nat_ascii: "c \<in> set (str_nat n) \<Longrightarrow> c < 128"
  using str_nat_digits [of c n] by simp

lemma format_05d_ascii: "c \<in> set (format_05d n) \<Longrightarrow> c < 128"
  using format_05d_digits [of c n] by simp

lemma make_packet_total: "\<exists>p. make_packet a = Inr p \<and> encode_utf8 p = Inr p"
proof -
  define body where "body = ascii ''  '' @ str_nat a @ ascii '' '' @ spaces @ ascii '' ''"
  have b: "\<forall>c\<in>set body. c < 128"
    by (auto simp: body_def ascii_def spaces_def dest: str_nat_ascii)
  then have e: "encode_utf8 body = Inr body"
    by (rule encode_utf8_ascii)
  have c: "checksum body = Inr (format_05d (sum_list body))"
    using checksum_encoded [OF e] .
  have "\<forall>c\<in>set (body @ format_05d (sum_list body)). c < 128"
    using b by (auto dest: format_05d_ascii)
  then have "encode_utf8 (body @ format_05d (sum_list body)) = Inr (body @ format_05d (sum_list body))"
    by (rule encode_utf8_ascii)
  moreover have "make_packet a = Inr (body @ format_05d (sum_list body))"
    using c by (simp add: make_packet_def body_def)
  ultimately show ?thesis by simp
qed

lemma send_packet_ok:
  "sendall_raises t = None \<Longrightarrow> encode_utf8 p = Inr p \<Longrightarrow>
   send_packet t s p = Inr (s\<lparr>wire := wire s @ [p]\<rparr>)"
  by (simp add: send_packet_def)

lemma pass_corrupt:
  assumes "recv_30 t = Returns m" and "m \<noteq> []" and "checksum_verifier m = Inr False"
    and "sendall_raises t = None" and "make_packet ((ACK s + 1) mod 2) = Inr nak"
    and "encode_utf8 nak = Inr nak"
  shows "try_body decimal s t =
           Next (s\<lparr>total_packet_recv := total_packet_recv s + 1,
                   total_corrupted_pkt_recv := total_corrupted_pkt_recv s + 1,
                   total_packet_sent := total_packet_sent s + 1,
                   wire := wire s @ [nak]\<rparr>)"
  using assms by (simp add: try_body_def is_corrupt_def send_packet_ok)

lemma pass_wrong_seq:
  assumes "recv_30 t = Returns m" and "checksum_verifier m = Inr True"
    and "seq_num decimal m = Inr n" and "n \<noteq> SEQ s"
    and "sendall_raises t = None" and "make_packet ((ACK s + 1) mod 2) = Inr nak"
    and "encode_utf8 nak = Inr nak"
  shows "try_body decimal s t =
           Next (s\<lparr>total_packet_recv := total_packet_recv s + 1,
                   total_packet_sent := total_packet_sent s + 1,
                   wire := wire s @ [nak]\<rparr>)"
proof -
  from assms(2) have "m \<noteq> []" by (auto simp: checksum_verifier_def)
  with assms show ?thesis
    by (simp add: try_body_def is_corrupt_def send_packet_ok)
qed

lemma pass_accept:
  assumes "recv_30 t = Returns m" and "checksum_verifier m = Inr True"
    and "seq_num decimal m = Inr (SEQ s)"
    and "sendall_raises t = None" and "make_packet (ACK s) = Inr ack"
    and "encode_utf8 ack = Inr ack"
  shows "try_body decimal s t =
           Next (s\<lparr>total_packet_recv := total_packet_recv s + 1,
                   data := data s @ take 20 (drop 4 m),
                   total_packet_sent := total_packet_sent s + 1,
                   wire := wire s @ [ack],
                   ACK := (ACK s + 1) mod 2,
                   SEQ := (SEQ s + 1) mod 2\<rparr>)"
proof -
  from assms(2) have "m \<noteq> []" by (auto simp: checksum_verifier_def)
  with assms show ?thesis
    by (simp add: try_body_def is_corrupt_def send_packet_ok)
qed

lemma pass_not_a_number:
  assumes "recv_30 t = Returns m" and "checksum_verifier m = Inr True"
    and "seq_num decimal m = Inl e"
  shows "try_body decimal s t = Throw e (s\<lparr>total_packet_recv := total_packet_recv s + 1\<rparr>)"
proof -
  from assms(2) have "m \<noteq> []" by (auto simp: checksum_verifier_def)
  with assms show ?thesis
    by (simp add: try_body_def is_corrupt_def)
qed

section \<open>Facts about the loop\<close>

lemma receive_loop_append:
  "receive_loop decimal s (xs @ ys) =
     (case receive_loop decimal s xs of
        Blocked s' \<Rightarrow> receive_loop decimal s' ys
      | Exited s' \<Rightarrow> Exited s'
      | Uncaught e s' \<Rightarrow> Uncaught e s')"
  by (induction xs arbitrary: s) (simp_all split: control.splits)

lemma accepted_count_append:
  "accepted_count decimal s (xs @ ys) =
     accepted_count decimal s xs +
     (case receive_loop decimal s xs of
        Blocked s' \<Rightarrow> accepted_count decimal s' ys
      | Exited s' \<Rightarrow> 0
      | Uncaught e s' \<Rightarrow> 0)"
  by (induction xs arbitrary: s) (simp_all split: control.splits)

lemma send_packet_fails:
  "sendall_raises t = Some e \<Longrightarrow> encode_utf8 p = Inr p \<Longrightarrow> send_packet t s p = Inl e"
  by (simp add: send_packet_def)

lemma pass_bits:
  "case try_body decimal s t of
     Next s' \<Rightarrow>
       if accepted decimal s t then ACK s' = (ACK s + 1) mod 2 \<and> SEQ s' = (SEQ s + 1) mod 2
       else ACK s' = ACK s \<and> SEQ s' = SEQ s
   | Break s' \<Rightarrow> s' = s
   | Throw e s' \<Rightarrow> ACK s' = ACK s \<and> SEQ s' = SEQ s"
proof (cases "recv_30 t")
  case (Raises e)
  then show ?thesis by (simp add: try_body_def)
next
  case (Returns m)
  obtain nak where nak: "make_packet ((ACK s + 1) mod 2) = Inr nak" "encode_utf8 nak = Inr nak"
    using make_packet_total by blast
  obtain ack where ack: "make_packet (ACK s) = Inr ack" "encode_utf8 ack = Inr ack"
    using make_packet_total by blast
  show ?thesis
  proof (cases "m = []")
    case True
    with Returns show ?thesis by (simp add: try_body_def)
  next
    case ne: False
    show ?thesis
    proof (cases "checksum_verifier m")
      case (Inl e)
      with Returns ne show ?thesis by (simp add: try_body_def is_corrupt_def)
    next
      case (Inr ok)
      show ?thesis
      proof (cases ok)
        case False
        with Inr Returns have na: "\<not> accepted decimal s t"
          by (simp add: accepted_def is_corrupt_def)
        show ?thesis
        proof (cases "sendall_raises t")
          case None
          with False Inr Returns ne nak na show ?thesis
            by (simp add: try_body_def is_corrupt_def send_packet_ok)
        next
          case (Some e)
          with False Inr Returns ne nak show ?thesis
            by (simp add: try_body_def is_corrupt_def send_packet_fails)
        qed
      next
        case True
        show ?thesis
        proof (cases "seq_num decimal m")
          case (Inl e)
          with True Inr Returns ne show ?thesis
            by (simp add: try_body_def is_corrupt_def)
        next
          case n: (Inr n)
          show ?thesis
          proof (cases "n = SEQ s")
            case False
            with n Returns have na: "\<not> accepted decimal s t"
              by (auto simp: accepted_def)
            show ?thesis
            proof (cases "sendall_raises t")
              case None
              with False n True Inr Returns ne nak na show ?thesis
                by (simp add: try_body_def is_corrupt_def send_packet_ok)
            next
              case (Some e)
              with False n True Inr Returns ne nak show ?thesis
                by (simp add: try_body_def is_corrupt_def send_packet_fails)
            qed
          next
            case eq: True
            show ?thesis
            proof (cases "sendall_raises t")
              case None
              with eq n True Inr Returns ne ack have
                p: "try_body decimal s t =
                   Next (s\<lparr>total_packet_recv := total_packet_recv s + 1,
                     data := data s @ take 20 (drop 4 m),
                     total_packet_sent := total_packet_sent s + 1,
                     wire := wire s @ [ack],
                     ACK := (ACK s + 1) mod 2,
                     SEQ := (SEQ s + 1) mod 2\<rparr>)"
                by (intro pass_accept) simp_all
              with eq n True Inr Returns ne have "accepted decimal s t"
                by (simp add: accepted_def is_corrupt_def)
              with p show ?thesis by simp
            next
              case (Some e)
              with eq n True Inr Returns ne ack show ?thesis
                by (simp add: try_body_def is_corrupt_def send_packet_fails)
            qed
          qed
        qed
      qed
    qed
  qed
qed

lemma loop_bits:
  "ACK s < 2 \<Longrightarrow> SEQ s < 2 \<Longrightarrow>
   ACK (variables (receive_loop decimal s ts)) = (ACK s + accepted_count decimal s ts) mod 2 \<and>
   SEQ (variables (receive_loop decimal s ts)) = (SEQ s + accepted_count decimal s ts) mod 2"
proof (induction ts arbitrary: s)
  case Nil
  then show ?case by simp
next
  case (Cons t ts)
  show ?case
  proof (cases "try_body decimal s t")
    case (Next s')
    with pass_bits [of decimal s t] have
      b: "if accepted decimal s t then ACK s' = (ACK s + 1) mod 2 \<and> SEQ s' = (SEQ s + 1) mod 2
          else ACK s' = ACK s \<and> SEQ s' = SEQ s"
      by simp
    with Cons.prems have "ACK s' < 2" "SEQ s' < 2" by (auto split: if_splits)
    then have "ACK (variables (receive_loop decimal s' ts)) =
                 (ACK s' + accepted_count decimal s' ts) mod 2 \<and>
               SEQ (variables (receive_loop decimal s' ts)) =
                 (SEQ s' + accepted_count decimal s' ts) mod 2"
      by (rule Cons.IH)
    with b Next show ?thesis
      by (cases "accepted decimal s t") (simp_all add: mod_simps)
  next
    case (Break s')
    with pass_bits [of decimal s t] Cons.prems show ?thesis by simp
  next
    case (Throw e s')
    with pass_bits [of decimal s t] Cons.prems show ?thesis by simp
  qed
qed

text \<open>
  Packets with valid checksums and sequence numbers 0, 1, 0, 1, ... from the initial
  variables, by induction on the packets from the last one.
\<close>

lemma alternating_run:
  assumes "\<forall>i<length ps. length (ps ! i) = 30 \<and> checksum_verifier (ps ! i) = Inr True \<and>
             seq_num decimal (ps ! i) = Inr (i mod 2)"
  shows "\<exists>s. receive_loop decimal initial (map delivers ps) = Blocked s \<and>
             accepted_count decimal initial (map delivers ps) = length ps \<and>
             data s = concat (map (\<lambda>p. take 20 (drop 4 p)) ps) \<and>
             map Inr (wire s) = map (\<lambda>i. make_packet (i mod 2)) [0..<length ps] \<and>
             total_packet_sent s = length ps \<and> total_packet_recv s = length ps \<and>
             total_corrupted_pkt_recv s = 0 \<and>
             ACK s = length ps mod 2 \<and> SEQ s = length ps mod 2"
  using assms
proof (induction ps rule: rev_induct)
  case Nil
  show ?case by (simp add: initial_def)
next
  case (snoc p ps)
  have "\<forall>i<length ps. length (ps ! i) = 30 \<and> checksum_verifier (ps ! i) = Inr True \<and>
             seq_num decimal (ps ! i) = Inr (i mod 2)"
  proof (intro allI impI)
    fix i assume i: "i < length ps"
    then have "i < length (ps @ [p])" by simp
    with snoc.prems have "length ((ps @ [p]) ! i) = 30 \<and>
        checksum_verifier ((ps @ [p]) ! i) = Inr True \<and>
        seq_num decimal ((ps @ [p]) ! i) = Inr (i mod 2)"
      by blast
    with i show "length (ps ! i) = 30 \<and> checksum_verifier (ps ! i) = Inr True \<and>
             seq_num decimal (ps ! i) = Inr (i mod 2)"
      by (simp add: nth_append)
  qed
  with snoc.IH obtain s where
    l: "receive_loop decimal initial (map delivers ps) = Blocked s" and
    c: "accepted_count decimal initial (map delivers ps) = length ps" and
    d: "data s = concat (map (\<lambda>p. take 20 (drop 4 p)) ps)" and
    w: "map Inr (wire s) = map (\<lambda>i. make_packet (i mod 2)) [0..<length ps]" and
    n: "total_packet_sent s = length ps" "total_packet_recv s = length ps"
       "total_corrupted_pkt_recv s = 0" and
    b: "ACK s = length ps mod 2" "SEQ s = length ps mod 2"
    by blast
  have "length ps < length (ps @ [p])" by simp
  with snoc.prems have "checksum_verifier ((ps @ [p]) ! length ps) = Inr True \<and>
        seq_num decimal ((ps @ [p]) ! length ps) = Inr (length ps mod 2)"
    by blast
  then have v: "checksum_verifier p = Inr True" and q: "seq_num decimal p = Inr (SEQ s)"
    by (simp_all add: b)
  obtain ack where ack: "make_packet (ACK s) = Inr ack" "encode_utf8 ack = Inr ack"
    using make_packet_total by blast
  define s' where "s' = s\<lparr>total_packet_recv := total_packet_recv s + 1,
                   data := data s @ take 20 (drop 4 p),
                   total_packet_sent := total_packet_sent s + 1,
                   wire := wire s @ [ack],
                   ACK := (ACK s + 1) mod 2,
                   SEQ := (SEQ s + 1) mod 2\<rparr>"
  have t: "try_body decimal s (delivers p) = Next s'"
    unfolding s'_def using v q ack by (intro pass_accept) (simp_all add: delivers_def)
  from v have "p \<noteq> []" by (auto simp: checksum_verifier_def)
  with v q t have a: "accepted decimal s (delivers p)"
    by (simp add: accepted_def is_corrupt_def delivers_def)
  have l': "receive_loop decimal initial (map delivers (ps @ [p])) = Blocked s'"
    by (simp add: receive_loop_append l t)
  have c': "accepted_count decimal initial (map delivers (ps @ [p])) = length (ps @ [p])"
    by (simp add: accepted_count_append l c t a)
  have w': "map Inr (wire s') = map (\<lambda>i. make_packet (i mod 2)) [0..<length (ps @ [p])]"
    using w ack(1) by (simp add: s'_def b)
  have b': "ACK s' = length (ps @ [p]) mod 2" "SEQ s' = length (ps @ [p]) mod 2"
    by (simp_all add: s'_def b mod_simps)
  show ?case
    using l' c' w' b' by (simp add: s'_def d n)
qed

text \<open>
  Two such packets: the docstring example and the same payload with sequence number 0.
\<close>

lemma two_packets:
  "\<forall>i<length [ascii ''0 0 That was the time fo 02017'', ascii ''1 0 That was the time fo 02018''].
      length ([ascii ''0 0 That was the time fo 02017'', ascii ''1 0 That was the time fo 02018''] ! i) = 30 \<and>
      checksum_verifier ([ascii ''0 0 That was the time fo 02017'', ascii ''1 0 That was the time fo 02018''] ! i) = Inr True \<and>
      seq_num arabic_indic ([ascii ''0 0 That was the time fo 02017'', ascii ''1 0 That was the time fo 02018''] ! i) = Inr (i mod 2)"
proof -
  have a: "checksum_verifier (ascii ''0 0 That was the time fo 02017'') = Inr True" by code_simp
  have b: "checksum_verifier (ascii ''1 0 That was the time fo 02018'') = Inr True" by code_simp
  have c: "seq_num arabic_indic (ascii ''0 0 That was the time fo 02017'') = Inr 0" by code_simp
  have d: "seq_num arabic_indic (ascii ''1 0 That was the time fo 02018'') = Inr 1" by code_simp
  have e: "length (ascii ''0 0 That was the time fo 02017'') = 30"
    "length (ascii ''1 0 That was the time fo 02018'') = 30" by (simp_all add: ascii_def)
  show ?thesis
    using a b c d e by (auto simp: less_Suc_eq)
qed







section \<open>Properties of the checksum codec\<close>

text \<open>
  C7. \<open>checksum\<close> is a function of its argument alone, and for every string whose
  UTF-8 bytes sum to less than 100000 it returns the five decimal digits of that sum, the
  ten-thousands first, zeros included.
\<close>

theorem checksum_five_digits:
  assumes "encode_utf8 msg = Inr encoded" and "sum_list encoded < 100000"
  shows "(\<forall>msg'. msg' = msg \<longrightarrow> checksum msg' = checksum msg) \<and>
         checksum msg =
           Inr [48 + sum_list encoded div 10000 mod 10, 48 + sum_list encoded div 1000 mod 10,
                48 + sum_list encoded div 100 mod 10, 48 + sum_list encoded div 10 mod 10,
                48 + sum_list encoded mod 10]"
  using assms by (simp add: checksum_encoded format_05d_small)

text \<open>
  The example of the docstring of \<open>checksum\<close>: the bytes sum to 2018.
\<close>

theorem checksum_five_digits_witness:
  "encode_utf8 (ascii ''1 0 That was the time fo '') = Inr (ascii ''1 0 That was the time fo '') \<and>
   sum_list (ascii ''1 0 That was the time fo '') < 100000 \<and>
   checksum (ascii ''1 0 That was the time fo '') = Inr (ascii ''02018'')"
proof -
  have e: "encode_utf8 (ascii ''1 0 That was the time fo '') = Inr (ascii ''1 0 That was the time fo '')"
    by (simp add: ascii_def utf8_char_def)
  have b: "sum_list (ascii ''1 0 That was the time fo '') < 100000"
    by (simp add: ascii_def)
  show ?thesis
    using checksum_five_digits [OF e b] e b by (simp add: ascii_def)
qed

text \<open>
  The verifier on \<open>content + checksum(content)\<close>. Below 25 characters of content the
  message is shorter than 30 and is refused. From a byte sum of 100000 on, the checksum
  has six digits or more, the last five characters of the message are only its tail, and
  the recomputed checksum, again longer than five characters, differs from them.
\<close>

lemma verifier_roundtrip_aux:
  assumes "encode_utf8 content = Inr encoded"
  shows "checksum_verifier (content @ format_05d (sum_list encoded)) =
           Inr (25 \<le> length content \<and> sum_list encoded < 100000)"
proof (cases "sum_list encoded < 100000")
  case True
  then have len: "length (format_05d (sum_list encoded)) = 5"
    by (simp add: format_05d_small)
  show ?thesis
  proof (cases "25 \<le> length content")
    case False
    with len True show ?thesis by (simp add: checksum_verifier_def)
  next
    case l: True
    with len True assms show ?thesis
      by (simp add: checksum_verifier_def checksum_encoded)
  qed
next
  case False
  define c where "c = str_nat (sum_list encoded)"
  define k where "k = length c - 5"
  from False have fc: "format_05d (sum_list encoded) = c" and lc: "6 \<le> length c"
    using format_05d_big [of "sum_list encoded"] by (simp_all add: c_def)
  have ascii_c: "\<forall>x\<in>set (take k c). x < 128"
  proof
    fix x assume "x \<in> set (take k c)"
    then have "x \<in> set c" by (rule in_set_takeD)
    then show "x < 128" using str_nat_digits [of x "sum_list encoded"] by (simp add: c_def)
  qed
  have enc: "encode_utf8 (content @ take k c) = Inr (encoded @ take k c)"
    using assms encode_utf8_ascii [OF ascii_c] by (simp add: encode_utf8_append)
  have big: "100000 \<le> sum_list (encoded @ take k c)"
    using False by simp
  have calc: "checksum (content @ take k c) = Inr (str_nat (sum_list (encoded @ take k c)))"
    using checksum_encoded [OF enc] format_05d_big [OF big] by simp
  have long: "6 \<le> length (str_nat (sum_list (encoded @ take k c)))"
    using format_05d_big [OF big] by simp
  have tk: "take (length (content @ c) - 5) (content @ c) = content @ take k c"
    using lc by (simp add: k_def)
  have dr: "length (drop (length (content @ c) - 5) (content @ c)) = 5"
    using lc by simp
  have ne: "str_nat (sum_list (encoded @ take k c)) \<noteq> drop (length (content @ c) - 5) (content @ c)"
  proof
    assume "str_nat (sum_list (encoded @ take k c)) = drop (length (content @ c) - 5) (content @ c)"
    then have "length (str_nat (sum_list (encoded @ take k c))) =
               length (drop (length (content @ c) - 5) (content @ c))"
      by (rule arg_cong)
    with long dr show False by linarith
  qed
  show ?thesis
    unfolding fc using False tk calc ne
    by (simp add: checksum_verifier_def Let_def del: take_append drop_append)
qed


text \<open>
  C5, amended. For every string \<open>content\<close> that encodes to UTF-8,
  \<open>checksum_verifier (content + checksum content)\<close> returns true when \<open>content\<close> has at
  least 25 characters and a byte sum below 100000, and false otherwise.
\<close>

theorem verifier_roundtrip:
  assumes "encode_utf8 content = Inr encoded"
  shows "\<exists>c. checksum content = Inr c \<and>
             checksum_verifier (content @ c) =
               Inr (25 \<le> length content \<and> sum_list encoded < 100000)"
  using assms verifier_roundtrip_aux [OF assms] by (simp add: checksum_encoded)

text \<open>
  The docstring example: 25 characters of content, byte sum 2018.
\<close>

theorem verifier_roundtrip_witness:
  "encode_utf8 (ascii ''1 0 That was the time fo '') = Inr (ascii ''1 0 That was the time fo '') \<and>
   checksum (ascii ''1 0 That was the time fo '') = Inr (ascii ''02018'') \<and>
   checksum_verifier (ascii ''1 0 That was the time fo '' @ ascii ''02018'') = Inr True"
proof -
  have e: "encode_utf8 (ascii ''1 0 That was the time fo '') = Inr (ascii ''1 0 That was the time fo '')"
    by (simp add: ascii_def utf8_char_def)
  have c: "checksum (ascii ''1 0 That was the time fo '') = Inr (ascii ''02018'')"
    by code_simp
  show ?thesis
    using verifier_roundtrip [OF e] e c by (simp add: ascii_def)
qed

text \<open>
  C5 as stated fails: \<open>HELLO\<close> with its checksum is 10 characters long and is refused,
  and so is a string of 820 letters \<open>z\<close> (byte sum 100040) with its six-digit checksum.
\<close>

theorem verifier_roundtrip_counterexample:
  "checksum (ascii ''HELLO'') = Inr (ascii ''00372'') \<and>
   checksum_verifier (ascii ''HELLO'' @ ascii ''00372'') = Inr False \<and>
   checksum (replicate 820 122) = Inr (ascii ''100040'') \<and>
   checksum_verifier (replicate 820 122 @ ascii ''100040'') = Inr False"
proof -
  have e1: "encode_utf8 (ascii ''HELLO'') = Inr (ascii ''HELLO'')"
    by (simp add: ascii_def utf8_char_def)
  have c1: "format_05d (sum_list (ascii ''HELLO'')) = ascii ''00372''"
    by code_simp
  have e2: "encode_utf8 (replicate 820 122) = Inr (replicate 820 122)"
    by (rule encode_utf8_ascii) simp
  have s2: "sum_list (replicate 820 (122::nat)) = 100040"
    by (simp add: sum_list_replicate)
  have d: "str_nat 100040 = ascii ''100040''"
    by (simp add: str_nat_step str_nat_small ascii_def)
  have c2: "format_05d (sum_list (replicate 820 122)) = ascii ''100040''"
    using format_05d_big [of 100040] by (simp add: s2 d)
  show ?thesis
    using verifier_roundtrip_aux [OF e1] verifier_roundtrip_aux [OF e2]
      checksum_encoded [OF e1] checksum_encoded [OF e2]
    unfolding c1 c2 by (simp add: s2) (simp add: ascii_def)
qed

text \<open>
  C6. \<open>checksum_verifier\<close> returns false on every message shorter than 30 characters.
  On a message of 30 characters or more it returns true exactly when the message splits
  into a content and five last characters that are, as a string, the checksum of the
  content; and when the message encodes to UTF-8 it returns true or false.
\<close>

theorem checksum_verifier_spec:
  "(length msg < 30 \<longrightarrow> checksum_verifier msg = Inr False) \<and>
   (30 \<le> length msg \<longrightarrow>
      (checksum_verifier msg = Inr True) =
        (\<exists>content claimed. msg = content @ claimed \<and> length claimed = 5 \<and>
                            checksum content = Inr claimed)) \<and>
   (30 \<le> length msg \<longrightarrow> (\<exists>encoded. encode_utf8 msg = Inr encoded) \<longrightarrow>
      checksum_verifier msg = Inr True \<or> checksum_verifier msg = Inr False)"
proof (intro conjI impI)
  assume "length msg < 30"
  then show "checksum_verifier msg = Inr False"
    by (simp add: checksum_verifier_def)
next
  assume l: "30 \<le> length msg"
  let ?content = "take (length msg - 5) msg" and ?claimed = "drop (length msg - 5) msg"
  have v: "(checksum_verifier msg = Inr True) = (checksum ?content = Inr ?claimed)"
    using l by (simp add: checksum_verifier_def split: sum.splits)
  show "(checksum_verifier msg = Inr True) =
        (\<exists>content claimed. msg = content @ claimed \<and> length claimed = 5 \<and>
                            checksum content = Inr claimed)"
  proof
    assume "checksum_verifier msg = Inr True"
    with v have "checksum ?content = Inr ?claimed" by simp
    moreover have "msg = ?content @ ?claimed" by simp
    moreover have "length ?claimed = 5" using l by simp
    ultimately show "\<exists>content claimed. msg = content @ claimed \<and> length claimed = 5 \<and>
                            checksum content = Inr claimed"
      by blast
  next
    assume "\<exists>content claimed. msg = content @ claimed \<and> length claimed = 5 \<and>
                            checksum content = Inr claimed"
    then obtain content claimed where
      m: "msg = content @ claimed" and c: "length claimed = 5" and k: "checksum content = Inr claimed"
      by blast
    from m c have "?content = content" "?claimed = claimed" by simp_all
    with k v show "checksum_verifier msg = Inr True" by simp
  qed
next
  assume l: "30 \<le> length msg" and "\<exists>encoded. encode_utf8 msg = Inr encoded"
  then obtain encoded where "encode_utf8 msg = Inr encoded" by blast
  then have "encode_utf8 (take (length msg - 5) msg @ drop (length msg - 5) msg) = Inr encoded"
    by simp
  then obtain x where "encode_utf8 (take (length msg - 5) msg) = Inr x"
    unfolding encode_utf8_append by (auto split: sum.splits)
  then show "checksum_verifier msg = Inr True \<or> checksum_verifier msg = Inr False"
    using l by (simp add: checksum_verifier_def checksum_encoded)
qed

text \<open>
  A message of 24 characters is refused; the docstring example of \<open>checksum_verifier\<close>
  is accepted; the same message with a space for the leading zero of the checksum is
  refused, although both read as the number 2018.
\<close>

theorem checksum_verifier_spec_witness:
  "length (ascii ''1 0 That was the time fo'') < 30 \<and>
   checksum_verifier (ascii ''1 0 That was the time fo'') = Inr False \<and>
   30 \<le> length (ascii ''1 0 That was the time fo 02018'') \<and>
   (\<exists>encoded. encode_utf8 (ascii ''1 0 That was the time fo 02018'') = Inr encoded) \<and>
   checksum_verifier (ascii ''1 0 That was the time fo 02018'') = Inr True \<and>
   (\<exists>content claimed. ascii ''1 0 That was the time fo 02018'' = content @ claimed \<and>
       length claimed = 5 \<and> checksum content = Inr claimed) \<and>
   30 \<le> length (ascii ''1 0 That was the time fo  2018'') \<and>
   checksum_verifier (ascii ''1 0 That was the time fo  2018'') = Inr False \<and>
   \<not> (\<exists>content claimed. ascii ''1 0 That was the time fo  2018'' = content @ claimed \<and>
       length claimed = 5 \<and> checksum content = Inr claimed)"
proof -
  have a: "checksum_verifier (ascii ''1 0 That was the time fo 02018'') = Inr True"
    by code_simp
  have b: "checksum_verifier (ascii ''1 0 That was the time fo  2018'') = Inr False"
    by code_simp
  have e: "\<exists>encoded. encode_utf8 (ascii ''1 0 That was the time fo 02018'') = Inr encoded"
    by (simp add: ascii_def utf8_char_def)
  show ?thesis
    using checksum_verifier_spec [of "ascii ''1 0 That was the time fo''"]
      checksum_verifier_spec [of "ascii ''1 0 That was the time fo 02018''"]
      checksum_verifier_spec [of "ascii ''1 0 That was the time fo  2018''"] a b e
    by (simp add: ascii_def)
qed

section \<open>Properties of the acknowledgment packet\<close>

text \<open>
  C8, amended. For an ack bit 0 or 1, \<open>make_packet\<close> returns a packet of exactly 30
  characters: characters 0, 1 and 3 are spaces, character 2 is the digit of the ack bit,
  characters 4 to 23 are the twenty spaces of padding, character 24 is a space, and the
  last five characters are the checksum of the 25 before them, so that the packet passes
  \<open>checksum_verifier\<close>.
\<close>

theorem make_packet_layout:
  assumes "ackBit \<in> {0, 1}"
  shows "\<exists>p. make_packet ackBit = Inr p \<and> length p = 30 \<and>
             p ! 0 = 32 \<and> p ! 1 = 32 \<and> p ! 2 = 48 + ackBit \<and> p ! 3 = 32 \<and>
             take 20 (drop 4 p) = spaces \<and> p ! 24 = 32 \<and>
             checksum (take 25 p) = Inr (drop 25 p) \<and>
             checksum_verifier p = Inr True"
proof -
  have z: "length (ascii ''  0                      00816'') = 30 \<and>
        ascii ''  0                      00816'' ! 0 = 32 \<and>
        ascii ''  0                      00816'' ! 1 = 32 \<and>
        ascii ''  0                      00816'' ! 2 = 48 + 0 \<and>
        ascii ''  0                      00816'' ! 3 = 32 \<and>
        take 20 (drop 4 (ascii ''  0                      00816'')) = spaces \<and>
        ascii ''  0                      00816'' ! 24 = 32 \<and>
        checksum (take 25 (ascii ''  0                      00816'')) =
          Inr (drop 25 (ascii ''  0                      00816'')) \<and>
        checksum_verifier (ascii ''  0                      00816'') = Inr True"
    by code_simp
  have o: "length (ascii ''  1                      00817'') = 30 \<and>
        ascii ''  1                      00817'' ! 0 = 32 \<and>
        ascii ''  1                      00817'' ! 1 = 32 \<and>
        ascii ''  1                      00817'' ! 2 = 48 + 1 \<and>
        ascii ''  1                      00817'' ! 3 = 32 \<and>
        take 20 (drop 4 (ascii ''  1                      00817'')) = spaces \<and>
        ascii ''  1                      00817'' ! 24 = 32 \<and>
        checksum (take 25 (ascii ''  1                      00817'')) =
          Inr (drop 25 (ascii ''  1                      00817'')) \<and>
        checksum_verifier (ascii ''  1                      00817'') = Inr True"
    by code_simp
  from assms consider "ackBit = 0" | "ackBit = 1" by blast
  then show ?thesis
  proof cases
    case 1
    show ?thesis unfolding 1 using make_packet_0 z by blast
  next
    case 2
    show ?thesis unfolding 2 using make_packet_1 o by blast
  qed
qed

text \<open>
  The packet for the ack bit 1.
\<close>

theorem make_packet_layout_witness:
  "(1::nat) \<in> {0, 1} \<and>
   make_packet 1 = Inr (ascii ''  1                      00817'') \<and>
   length (ascii ''  1                      00817'') = 30 \<and>
   ascii ''  1                      00817'' ! 2 = of_char CHR ''1'' \<and>
   checksum_verifier (ascii ''  1                      00817'') = Inr True"
proof -
  have h: "(1::nat) \<in> {0, 1}" by simp
  obtain p where p: "make_packet 1 = Inr p" "length p = 30" "p ! 2 = 48 + 1"
    "checksum_verifier p = Inr True"
    using make_packet_layout [OF h] by blast
  from p(1) have "p = ascii ''  1                      00817''"
    unfolding make_packet_1 by simp
  with p h show ?thesis by simp
qed

text \<open>
  C8 as stated fails: where it puts the ack bit digit, at character 0, the packet for the
  ack bit 0 has a space.
\<close>

theorem make_packet_layout_counterexample:
  "make_packet 0 = Inr (ascii ''  0                      00816'') \<and>
   ascii ''  0                      00816'' ! 0 = of_char CHR '' '' \<and>
   ascii ''  0                      00816'' ! 0 \<noteq> of_char CHR ''0''"
  by (simp add: make_packet_0) (simp add: ascii_def)

section \<open>Properties of one pass of the receiver\<close>

text \<open>
  C2. When a non-empty read fails checksum verification and \<open>sendall\<close> succeeds, the
  pass adds one to the corrupted-packet counter, sends exactly one packet, the ack packet
  for the bit \<open>(ACK + 1) mod 2\<close>, and leaves \<open>SEQ\<close>, \<open>ACK\<close> and \<open>data\<close> as they were; the
  packet is not accepted. A packet that then arrives with a valid checksum and the
  expected sequence number is accepted: its payload is appended, the ack packet for
  \<open>ACK\<close> is sent and both bits advance.
\<close>

theorem corrupt_packet_nak:
  assumes "recv_30 t = Returns m" and "m \<noteq> []" and "checksum_verifier m = Inr False"
    and "sendall_raises t = None"
    and "recv_30 t' = Returns g" and "checksum_verifier g = Inr True"
    and "seq_num decimal g = Inr (SEQ s)" and "sendall_raises t' = None"
  shows "\<exists>nak ack s'.
           make_packet ((ACK s + 1) mod 2) = Inr nak \<and>
           make_packet (ACK s) = Inr ack \<and>
           try_body decimal s t = Next s' \<and>
           total_corrupted_pkt_recv s' = total_corrupted_pkt_recv s + 1 \<and>
           wire s' = wire s @ [nak] \<and>
           total_packet_sent s' = total_packet_sent s + 1 \<and>
           total_packet_recv s' = total_packet_recv s + 1 \<and>
           SEQ s' = SEQ s \<and> ACK s' = ACK s \<and> data s' = data s \<and>
           \<not> accepted decimal s t \<and>
           accepted decimal s' t' \<and>
           receive_loop decimal s [t, t'] =
             Blocked (s\<lparr>data := data s @ take 20 (drop 4 g),
                        total_packet_sent := total_packet_sent s + 2,
                        total_packet_recv := total_packet_recv s + 2,
                        total_corrupted_pkt_recv := total_corrupted_pkt_recv s + 1,
                        ACK := (ACK s + 1) mod 2,
                        SEQ := (SEQ s + 1) mod 2,
                        wire := wire s @ [nak, ack]\<rparr>)"
proof -
  obtain nak where nak: "make_packet ((ACK s + 1) mod 2) = Inr nak" "encode_utf8 nak = Inr nak"
    using make_packet_total by blast
  obtain ack where ack: "make_packet (ACK s) = Inr ack" "encode_utf8 ack = Inr ack"
    using make_packet_total by blast
  define s' where "s' = s\<lparr>total_packet_recv := total_packet_recv s + 1,
                   total_corrupted_pkt_recv := total_corrupted_pkt_recv s + 1,
                   total_packet_sent := total_packet_sent s + 1,
                   wire := wire s @ [nak]\<rparr>"
  have p1: "try_body decimal s t = Next s'"
    unfolding s'_def using assms(1-4) nak by (rule pass_corrupt)
  have p2: "try_body decimal s' t' =
           Next (s'\<lparr>total_packet_recv := total_packet_recv s' + 1,
                   data := data s' @ take 20 (drop 4 g),
                   total_packet_sent := total_packet_sent s' + 1,
                   wire := wire s' @ [ack],
                   ACK := (ACK s' + 1) mod 2,
                   SEQ := (SEQ s' + 1) mod 2\<rparr>)"
    using assms(5-8) ack by (intro pass_accept) (simp_all add: s'_def)
  have g: "g \<noteq> []"
    using assms(6) by (auto simp: checksum_verifier_def)
  have a1: "\<not> accepted decimal s t"
    using assms(1,3) by (simp add: accepted_def is_corrupt_def)
  have a2: "accepted decimal s' t'"
    using assms(5-7) g p2 by (simp add: accepted_def is_corrupt_def s'_def)
  have l: "receive_loop decimal s [t, t'] =
             Blocked (s\<lparr>data := data s @ take 20 (drop 4 g),
                        total_packet_sent := total_packet_sent s + 2,
                        total_packet_recv := total_packet_recv s + 2,
                        total_corrupted_pkt_recv := total_corrupted_pkt_recv s + 1,
                        ACK := (ACK s + 1) mod 2,
                        SEQ := (SEQ s + 1) mod 2,
                        wire := wire s @ [nak, ack]\<rparr>)"
    by (simp add: p1 p2) (simp add: s'_def)
  show ?thesis
    using nak(1) ack(1) p1 a1 a2 l by (simp add: s'_def)
qed

text \<open>
  From the initial variables: a packet with one letter changed, then the packet itself.
\<close>

theorem corrupt_packet_nak_witness:
  "recv_30 (delivers (ascii ''0 0 That was the tame fo 02017'')) =
     Returns (ascii ''0 0 That was the tame fo 02017'') \<and>
   ascii ''0 0 That was the tame fo 02017'' \<noteq> [] \<and>
   checksum_verifier (ascii ''0 0 That was the tame fo 02017'') = Inr False \<and>
   sendall_raises (delivers (ascii ''0 0 That was the tame fo 02017'')) = None \<and>
   recv_30 (delivers (ascii ''0 0 That was the time fo 02017'')) =
     Returns (ascii ''0 0 That was the time fo 02017'') \<and>
   checksum_verifier (ascii ''0 0 That was the time fo 02017'') = Inr True \<and>
   seq_num arabic_indic (ascii ''0 0 That was the time fo 02017'') = Inr (SEQ initial) \<and>
   sendall_raises (delivers (ascii ''0 0 That was the time fo 02017'')) = None \<and>
   receive_loop arabic_indic initial
     [delivers (ascii ''0 0 That was the tame fo 02017''),
      delivers (ascii ''0 0 That was the time fo 02017'')] =
     Blocked \<lparr>data = ascii ''That was the time fo'', total_packet_sent = 2,
              total_packet_recv = 2, total_corrupted_pkt_recv = 1, ACK = 1, SEQ = 1,
              wire = [ascii ''  1                      00817'',
                      ascii ''  0                      00816'']\<rparr>"
proof -
  let ?m = "ascii ''0 0 That was the tame fo 02017''"
  let ?g = "ascii ''0 0 That was the time fo 02017''"
  have h1: "recv_30 (delivers ?m) = Returns ?m" by (simp add: delivers_def)
  have h2: "?m \<noteq> []" by (simp add: ascii_def)
  have h3: "checksum_verifier ?m = Inr False" by code_simp
  have h4: "sendall_raises (delivers ?m) = None" by (simp add: delivers_def)
  have h5: "recv_30 (delivers ?g) = Returns ?g" by (simp add: delivers_def)
  have h6: "checksum_verifier ?g = Inr True" by code_simp
  have h7: "seq_num arabic_indic ?g = Inr (SEQ initial)" by code_simp
  have h8: "sendall_raises (delivers ?g) = None" by (simp add: delivers_def)
  have k1: "(ACK initial + 1) mod 2 = 1" by (simp add: initial_def)
  have k0: "ACK initial = 0" by (simp add: initial_def)
  have d: "take 20 (drop 4 ?g) = ascii ''That was the time fo''" by (simp add: ascii_def)
  obtain nak ack where
    n: "make_packet ((ACK initial + 1) mod 2) = Inr nak" and
    a: "make_packet (ACK initial) = Inr ack" and
    l: "receive_loop arabic_indic initial [delivers ?m, delivers ?g] =
             Blocked (initial\<lparr>data := data initial @ take 20 (drop 4 ?g),
                        total_packet_sent := total_packet_sent initial + 2,
                        total_packet_recv := total_packet_recv initial + 2,
                        total_corrupted_pkt_recv := total_corrupted_pkt_recv initial + 1,
                        ACK := (ACK initial + 1) mod 2,
                        SEQ := (SEQ initial + 1) mod 2,
                        wire := wire initial @ [nak, ack]\<rparr>)"
    using corrupt_packet_nak [OF h1 h2 h3 h4 h5 h6 h7 h8] by blast
  from n have n': "nak = ascii ''  1                      00817''"
    unfolding k1 make_packet_1 by simp
  from a have a': "ack = ascii ''  0                      00816''"
    unfolding k0 make_packet_0 by simp
  have "receive_loop arabic_indic initial [delivers ?m, delivers ?g] =
     Blocked \<lparr>data = ascii ''That was the time fo'', total_packet_sent = 2,
              total_packet_recv = 2, total_corrupted_pkt_recv = 1, ACK = 1, SEQ = 1,
              wire = [ascii ''  1                      00817'',
                      ascii ''  0                      00816'']\<rparr>"
    unfolding l d n' a' by (simp add: initial_def)
  with h1 h2 h3 h4 h5 h6 h7 h8 show ?thesis by simp
qed

text \<open>
  C3. When a read passes checksum verification, its sequence number is read as \<open>n\<close> and
  \<open>n\<close> is not \<open>SEQ\<close>, and \<open>sendall\<close> succeeds, the pass sends exactly one packet, the ack
  packet for the bit \<open>(ACK + 1) mod 2\<close>, and leaves \<open>data\<close>, \<open>SEQ\<close>, \<open>ACK\<close> and the
  corrupted-packet counter as they were; the packet is not accepted.
\<close>

theorem wrong_sequence_nak:
  assumes "recv_30 t = Returns m" and "checksum_verifier m = Inr True"
    and "seq_num decimal m = Inr n" and "n \<noteq> SEQ s" and "sendall_raises t = None"
  shows "\<exists>nak s'.
           make_packet ((ACK s + 1) mod 2) = Inr nak \<and>
           try_body decimal s t = Next s' \<and>
           wire s' = wire s @ [nak] \<and>
           total_packet_sent s' = total_packet_sent s + 1 \<and>
           total_packet_recv s' = total_packet_recv s + 1 \<and>
           data s' = data s \<and> SEQ s' = SEQ s \<and> ACK s' = ACK s \<and>
           total_corrupted_pkt_recv s' = total_corrupted_pkt_recv s \<and>
           \<not> accepted decimal s t"
proof -
  obtain nak where nak: "make_packet ((ACK s + 1) mod 2) = Inr nak" "encode_utf8 nak = Inr nak"
    using make_packet_total by blast
  have p: "try_body decimal s t =
           Next (s\<lparr>total_packet_recv := total_packet_recv s + 1,
                   total_packet_sent := total_packet_sent s + 1,
                   wire := wire s @ [nak]\<rparr>)"
    using assms nak by (rule pass_wrong_seq)
  have a: "\<not> accepted decimal s t"
    using assms(1,3,4) by (auto simp: accepted_def)
  show ?thesis
    using nak(1) p a by simp
qed

text \<open>
  From the initial variables, the docstring example, whose sequence number is 1.
\<close>

theorem wrong_sequence_nak_witness:
  "recv_30 (delivers (ascii ''1 0 That was the time fo 02018'')) =
     Returns (ascii ''1 0 That was the time fo 02018'') \<and>
   checksum_verifier (ascii ''1 0 That was the time fo 02018'') = Inr True \<and>
   seq_num arabic_indic (ascii ''1 0 That was the time fo 02018'') = Inr 1 \<and>
   1 \<noteq> SEQ initial \<and>
   sendall_raises (delivers (ascii ''1 0 That was the time fo 02018'')) = None \<and>
   try_body arabic_indic initial (delivers (ascii ''1 0 That was the time fo 02018'')) =
     Next \<lparr>data = [], total_packet_sent = 1, total_packet_recv = 1,
           total_corrupted_pkt_recv = 0, ACK = 0, SEQ = 0,
           wire = [ascii ''  1                      00817'']\<rparr>"
proof -
  let ?m = "ascii ''1 0 That was the time fo 02018''"
  have h1: "recv_30 (delivers ?m) = Returns ?m" by (simp add: delivers_def)
  have h2: "checksum_verifier ?m = Inr True" by code_simp
  have h3: "seq_num arabic_indic ?m = Inr 1" by code_simp
  have h4: "1 \<noteq> SEQ initial" by (simp add: initial_def)
  have h5: "sendall_raises (delivers ?m) = None" by (simp add: delivers_def)
  have k: "(ACK initial + 1) mod 2 = 1" by (simp add: initial_def)
  obtain nak s' where
    n: "make_packet ((ACK initial + 1) mod 2) = Inr nak" and
    "try_body arabic_indic initial (delivers ?m) = Next s'"
    "wire s' = wire initial @ [nak]"
    "total_packet_sent s' = total_packet_sent initial + 1"
    "total_packet_recv s' = total_packet_recv initial + 1"
    "data s' = data initial" "SEQ s' = SEQ initial" "ACK s' = ACK initial"
    "total_corrupted_pkt_recv s' = total_corrupted_pkt_recv initial"
    using wrong_sequence_nak [OF h1 h2 h3 h4 h5] by blast
  moreover from n have "nak = ascii ''  1                      00817''"
    unfolding k make_packet_1 by simp
  ultimately have "try_body arabic_indic initial (delivers ?m) =
     Next \<lparr>data = [], total_packet_sent = 1, total_packet_recv = 1,
           total_corrupted_pkt_recv = 0, ACK = 0, SEQ = 0,
           wire = [ascii ''  1                      00817'']\<rparr>"
    by (cases s') (simp add: initial_def)
  with h1 h2 h3 h4 h5 show ?thesis by simp
qed

text \<open>
  C10. The receiver's own ack packet for the bit 0 is a message of 30 characters that
  passes \<open>checksum_verifier\<close> and begins with a space. On it \<open>int(recv_message[0])\<close> raises
  ValueError, whatever the Unicode database; the pass ends in that exception, the loop does
  not catch it, and \<open>start_receiver\<close> ends in a traceback.
\<close>

theorem ack_format_message_raises:
  "\<exists>m. length m = 30 \<and> make_packet 0 = Inr m \<and> checksum_verifier m = Inr True \<and>
        index0 m = Inr (of_char CHR '' '') \<and>
        seq_num decimal m = Inl ValueError \<and>
        (\<forall>s r. try_body decimal s \<lparr>recv_30 = Returns m, sendall_raises = r\<rparr> =
                  Throw ValueError (s\<lparr>total_packet_recv := total_packet_recv s + 1\<rparr>)) \<and>
        (\<forall>s r ts. receive_loop decimal s (\<lparr>recv_30 = Returns m, sendall_raises = r\<rparr> # ts) =
                  Uncaught ValueError (s\<lparr>total_packet_recv := total_packet_recv s + 1\<rparr>)) \<and>
        start_receiver decimal [delivers m] = Traceback ValueError"
proof -
  let ?m = "ascii ''  0                      00816''"
  have l: "length ?m = 30" by (simp add: ascii_def)
  have v: "checksum_verifier ?m = Inr True" by code_simp
  have i: "index0 ?m = Inr (of_char CHR '' '')" by (simp add: index0_def ascii_def)
  have q: "seq_num decimal ?m = Inl ValueError"
    by (simp add: seq_num_def index0_def ascii_def int_char_def)
  have t: "try_body decimal s \<lparr>recv_30 = Returns ?m, sendall_raises = r\<rparr> =
                  Throw ValueError (s\<lparr>total_packet_recv := total_packet_recv s + 1\<rparr>)" for s r
    using v q by (intro pass_not_a_number) simp_all
  have r: "receive_loop decimal s (\<lparr>recv_30 = Returns ?m, sendall_raises = r\<rparr> # ts) =
                  Uncaught ValueError (s\<lparr>total_packet_recv := total_packet_recv s + 1\<rparr>)" for s r ts
    by (simp add: t)
  have "start_receiver decimal [delivers ?m] = Traceback ValueError"
    unfolding start_receiver_def delivers_def r by simp
  with l v i q t r make_packet_0 show ?thesis by blast
qed

text \<open>
  With the Arabic-Indic digits for the database: the same message, the same ValueError.
\<close>

theorem ack_format_message_raises_witness:
  "checksum_verifier (ascii ''  0                      00816'') = Inr True \<and>
   seq_num arabic_indic (ascii ''  0                      00816'') = Inl ValueError \<and>
   start_receiver arabic_indic [delivers (ascii ''  0                      00816'')] =
     Traceback ValueError"
proof -
  obtain m where m: "make_packet 0 = Inr m" "checksum_verifier m = Inr True"
    "seq_num arabic_indic m = Inl ValueError"
    "start_receiver arabic_indic [delivers m] = Traceback ValueError"
    using ack_format_message_raises [of arabic_indic] by blast
  from m(1) have "m = ascii ''  0                      00816''"
    unfolding make_packet_0 by simp
  with m show ?thesis by simp
qed

section \<open>Properties of the receive loop\<close>

text \<open>
  C1. Let N packets of 30 characters each pass \<open>checksum_verifier\<close> and carry the
  sequence numbers 0, 1, 0, 1, ... in arrival order, and let every \<open>sendall\<close> succeed.
  From the initial variables the loop accepts all N: after them it waits in \<open>recv\<close>, and
  leaves on the empty read, with \<open>data\<close> the concatenation of characters 4 to 23 of the
  packets in arrival order, with exactly N packets sent, the i-th being the ack packet for
  the bit \<open>i mod 2\<close>, which is the value of \<open>ACK\<close> before that pass advances it, with
  N packets counted as received and none as corrupted, and with both bits at \<open>N mod 2\<close>.
\<close>

theorem alternating_packets_accepted:
  assumes "\<forall>i<length ps. length (ps ! i) = 30 \<and> checksum_verifier (ps ! i) = Inr True \<and>
             seq_num decimal (ps ! i) = Inr (i mod 2)"
  shows "\<exists>s. receive_loop decimal initial (map delivers ps) = Blocked s \<and>
             receive_loop decimal initial (map delivers ps @ [delivers []]) = Exited s \<and>
             accepted_count decimal initial (map delivers ps) = length ps \<and>
             data s = concat (map (\<lambda>p. take 20 (drop 4 p)) ps) \<and>
             map Inr (wire s) = map (\<lambda>i. make_packet (i mod 2)) [0..<length ps] \<and>
             total_packet_sent s = length ps \<and> total_packet_recv s = length ps \<and>
             total_corrupted_pkt_recv s = 0 \<and>
             ACK s = length ps mod 2 \<and> SEQ s = length ps mod 2"
proof -
  from alternating_run [OF assms] obtain s where
    s: "receive_loop decimal initial (map delivers ps) = Blocked s \<and>
             accepted_count decimal initial (map delivers ps) = length ps \<and>
             data s = concat (map (\<lambda>p. take 20 (drop 4 p)) ps) \<and>
             map Inr (wire s) = map (\<lambda>i. make_packet (i mod 2)) [0..<length ps] \<and>
             total_packet_sent s = length ps \<and> total_packet_recv s = length ps \<and>
             total_corrupted_pkt_recv s = 0 \<and>
             ACK s = length ps mod 2 \<and> SEQ s = length ps mod 2"
    by blast
  then have "receive_loop decimal initial (map delivers ps @ [delivers []]) = Exited s"
    by (simp add: receive_loop_append try_body_def delivers_def)
  with s show ?thesis by blast
qed

text \<open>
  Two packets, then the empty read.
\<close>

theorem alternating_packets_accepted_witness:
  "length (ascii ''0 0 That was the time fo 02017'') = 30 \<and>
   checksum_verifier (ascii ''0 0 That was the time fo 02017'') = Inr True \<and>
   seq_num arabic_indic (ascii ''0 0 That was the time fo 02017'') = Inr 0 \<and>
   length (ascii ''1 0 That was the time fo 02018'') = 30 \<and>
   checksum_verifier (ascii ''1 0 That was the time fo 02018'') = Inr True \<and>
   seq_num arabic_indic (ascii ''1 0 That was the time fo 02018'') = Inr 1 \<and>
   receive_loop arabic_indic initial
     [delivers (ascii ''0 0 That was the time fo 02017''),
      delivers (ascii ''1 0 That was the time fo 02018''), delivers []] =
     Exited \<lparr>data = ascii ''That was the time foThat was the time fo'', total_packet_sent = 2,
             total_packet_recv = 2, total_corrupted_pkt_recv = 0, ACK = 0, SEQ = 0,
             wire = [ascii ''  0                      00816'',
                     ascii ''  1                      00817'']\<rparr>"
proof -
  let ?ps = "[ascii ''0 0 That was the time fo 02017'', ascii ''1 0 That was the time fo 02018'']"
  obtain s where
    l: "receive_loop arabic_indic initial (map delivers ?ps @ [delivers []]) = Exited s" and
    d: "data s = concat (map (\<lambda>p. take 20 (drop 4 p)) ?ps)" and
    w: "map Inr (wire s) = map (\<lambda>i. make_packet (i mod 2)) [0..<length ?ps]" and
    n: "total_packet_sent s = length ?ps" "total_packet_recv s = length ?ps"
       "total_corrupted_pkt_recv s = 0" "ACK s = length ?ps mod 2" "SEQ s = length ?ps mod 2"
    using alternating_packets_accepted [OF two_packets] by blast
  have u: "[0..<length ?ps] = [0, 1]" by (simp add: upt_rec)
  have "map Inr (wire s) =
        [Inr (ascii ''  0                      00816'') :: py_exception + pystr,
         Inr (ascii ''  1                      00817'')]"
    unfolding w u using make_packet_0 make_packet_1 by simp
  then have w': "wire s = [ascii ''  0                      00816'',
                           ascii ''  1                      00817'']"
    by (auto simp: map_eq_Cons_conv)
  have d': "data s = ascii ''That was the time foThat was the time fo''"
    unfolding d by (simp add: ascii_def)
  have "s = \<lparr>data = ascii ''That was the time foThat was the time fo'', total_packet_sent = 2,
             total_packet_recv = 2, total_corrupted_pkt_recv = 0, ACK = 0, SEQ = 0,
             wire = [ascii ''  0                      00816'',
                     ascii ''  1                      00817'']\<rparr>"
    using d' w' n by (cases s) simp
  moreover have "length (ascii ''0 0 That was the time fo 02017'') = 30 \<and>
      checksum_verifier (ascii ''0 0 That was the time fo 02017'') = Inr True \<and>
      seq_num arabic_indic (ascii ''0 0 That was the time fo 02017'') = Inr 0"
    using two_packets by (auto dest: spec [of _ 0])
  moreover have "length (ascii ''1 0 That was the time fo 02018'') = 30 \<and>
      checksum_verifier (ascii ''1 0 That was the time fo 02018'') = Inr True \<and>
      seq_num arabic_indic (ascii ''1 0 That was the time fo 02018'') = Inr 1"
    using two_packets by (auto dest: spec [of _ 1])
  ultimately show ?thesis using l by simp
qed

text \<open>
  C4. From the initial variables and over every script of transport outcomes (valid,
  corrupted and duplicate packets in any order, empty reads, exceptions), wherever the
  loop stops or waits, \<open>ACK\<close> and \<open>SEQ\<close> are equal, and equal to the number of packets
  accepted so far modulo 2.
\<close>

theorem bits_follow_accepted_count:
  "ACK (variables (receive_loop decimal initial ts)) = SEQ (variables (receive_loop decimal initial ts)) \<and>
   SEQ (variables (receive_loop decimal initial ts)) = accepted_count decimal initial ts mod 2"
  using loop_bits [of initial decimal ts] by (simp add: initial_def)

text \<open>
  After two accepted packets both bits are 0 again.
\<close>

theorem bits_follow_accepted_count_witness:
  "accepted_count arabic_indic initial
     [delivers (ascii ''0 0 That was the time fo 02017''),
      delivers (ascii ''1 0 That was the time fo 02018'')] = 2 \<and>
   ACK (variables (receive_loop arabic_indic initial
     [delivers (ascii ''0 0 That was the time fo 02017''),
      delivers (ascii ''1 0 That was the time fo 02018'')])) = 0 \<and>
   SEQ (variables (receive_loop arabic_indic initial
     [delivers (ascii ''0 0 That was the time fo 02017''),
      delivers (ascii ''1 0 That was the time fo 02018'')])) = 0"
proof -
  let ?ps = "[ascii ''0 0 That was the time fo 02017'', ascii ''1 0 That was the time fo 02018'']"
  have "accepted_count arabic_indic initial (map delivers ?ps) = length ?ps"
    using alternating_run [OF two_packets] by blast
  then have c: "accepted_count arabic_indic initial
     [delivers (ascii ''0 0 That was the time fo 02017''),
      delivers (ascii ''1 0 That was the time fo 02018'')] = 2"
    by simp
  show ?thesis
    using bits_follow_accepted_count
      [of arabic_indic "[delivers (ascii ''0 0 That was the time fo 02017''),
      delivers (ascii ''1 0 That was the time fo 02018'')]"]
    unfolding c by simp
qed




end
